theory Spec2Isabelle
  imports Main
begin

section \<open>Text primitives of the Python runtime\<close>

text \<open>
  A Python \<open>str\<close> is a sequence of code points. Text is modelled as \<open>string\<close>, one
  \<open>char\<close> per code point, so the model covers the code points 0 to 255 (ASCII and
  Latin-1). On that range the tables below are the ones of CPython:
  \<open>str.isspace\<close> (also the class \<open>\s\<close> of \<open>re\<close> on \<open>str\<close> patterns), the line
  boundaries of \<open>str.splitlines\<close>, and \<open>str.lower\<close>. Code points above 255 are
  outside the model: further whitespace and line boundaries, and the long s (U+017F),
  which a case-insensitive pattern of \<open>re\<close> accepts for the letter s.
\<close>

definition isspace :: "char \<Rightarrow> bool" where
  "isspace c \<longleftrightarrow> c \<in> set [CHR 0x09, CHR 0x0A, CHR 0x0B, CHR 0x0C, CHR 0x0D,
      CHR 0x1C, CHR 0x1D, CHR 0x1E, CHR 0x1F, CHR 0x20, CHR 0x85, CHR 0xA0]"

definition is_linebreak :: "char \<Rightarrow> bool" where
  "is_linebreak c \<longleftrightarrow> c \<in> set [CHR 0x0A, CHR 0x0B, CHR 0x0C, CHR 0x0D,
      CHR 0x1C, CHR 0x1D, CHR 0x1E, CHR 0x85]"

definition lower_char :: "char \<Rightarrow> char" where
  "lower_char c =
     (let n = (of_char c :: nat)
      in if (65 \<le> n \<and> n \<le> 90) \<or> (192 \<le> n \<and> n \<le> 222 \<and> n \<noteq> 215)
         then char_of (n + 32) else c)"

definition lower :: "string \<Rightarrow> string" where
  "lower s = map lower_char s"

text \<open>\<open>s.strip()\<close> and \<open>s.strip(chars)\<close>: drop from both ends while the test holds.\<close>

definition strip_by :: "(char \<Rightarrow> bool) \<Rightarrow> string \<Rightarrow> string" where
  "strip_by p s = rev (dropWhile p (rev (dropWhile p s)))"

definition strip :: "string \<Rightarrow> string" where
  "strip s = strip_by isspace s"

definition strip_chars :: "string \<Rightarrow> string \<Rightarrow> string" where
  "strip_chars chars s = strip_by (\<lambda>c. c \<in> set chars) s"

definition startswith :: "string \<Rightarrow> string \<Rightarrow> bool" where
  "startswith s p \<longleftrightarrow> take (length p) s = p"

definition endswith :: "string \<Rightarrow> string \<Rightarrow> bool" where
  "endswith s p \<longleftrightarrow> length p \<le> length s \<and> drop (length s - length p) s = p"

text \<open>
  \<open>s.splitlines()\<close>: the scan of CPython, with the current line kept reversed in
  \<open>cur\<close>. A carriage return followed by a line feed is one boundary; a boundary at
  the very end opens no further line.
\<close>

fun splitlines_from :: "string \<Rightarrow> string \<Rightarrow> string list" where
  "splitlines_from cur [] = (if cur = [] then [] else [rev cur])"
| "splitlines_from cur [c] = (if is_linebreak c then [rev cur] else [rev (c # cur)])"
| "splitlines_from cur (c # d # ds) =
     (if c = CHR 0x0D \<and> d = CHR 0x0A then rev cur # splitlines_from [] ds
      else if is_linebreak c then rev cur # splitlines_from [] (d # ds)
      else splitlines_from (c # cur) (d # ds))"

definition splitlines :: "string \<Rightarrow> string list" where
  "splitlines s = splitlines_from [] s"

section \<open>The query sanitizer: \<open>clean_sql_query\<close> (app.py and chatbot.py, same body)\<close>

text \<open>The two fence markers of both regular expressions: three backticks, three single quotes.\<close>

definition fences :: "string list" where
  "fences = [[CHR 0x60, CHR 0x60, CHR 0x60], [CHR 0x27, CHR 0x27, CHR 0x27]]"

text \<open>
  First substitution: the pattern is anchored at the start of the string (no MULTILINE
  flag), takes an optional fence, any whitespace, the letters s, q, l in either case and
  any whitespace, and is replaced by nothing. Without the three letters there is no
  match and the string stays as it is, fence included. Backtracking finds no second
  way to match: a string that starts with a fence starts neither with whitespace nor
  with the letter s.
\<close>

definition sub_leading_fence :: "string \<Rightarrow> string" where
  "sub_leading_fence s =
     (let a = (if list_ex (startswith s) fences then drop 3 s else s);
          b = dropWhile isspace a
      in if lower (take 3 b) = ''sql'' then dropWhile isspace (drop 3 b) else s)"

text \<open>
  Second substitution: a fence at the end of the string is removed. The end anchor of
  \<open>re\<close> also matches just before a line feed that ends the string; then the fence
  goes and the line feed stays.
\<close>

definition sub_trailing_fence :: "string \<Rightarrow> string" where
  "sub_trailing_fence s =
     (if list_ex (endswith s) fences then take (length s - 3) s
      else if list_ex (\<lambda>f. endswith s (f @ [CHR 0x0A])) fences
        then take (length s - 4) s @ [CHR 0x0A]
      else s)"

text \<open>The argument of the \<open>strip\<close> call: backtick, single quote, double quote, space, line feed.\<close>

definition strip_set :: "string" where
  "strip_set = [CHR 0x60, CHR 0x27, CHR 0x22, CHR 0x20, CHR 0x0A]"

text \<open>The value of \<open>sql_query\<close> after the first three assignments.\<close>

definition stripped_query :: "string \<Rightarrow> string" where
  "stripped_query sql_query =
     strip_chars strip_set (sub_trailing_fence (sub_leading_fence sql_query))"

definition statement_keywords :: "string list" where
  "statement_keywords = [''select'', ''update'', ''delete'', ''insert'', ''with'']"

definition is_statement :: "string \<Rightarrow> bool" where
  "is_statement line \<longleftrightarrow> list_ex (startswith (lower line)) statement_keywords"

text \<open>The list comprehension: the stripped lines that are not empty.\<close>

definition query_lines :: "string \<Rightarrow> string list" where
  "query_lines s = filter (\<lambda>l. l \<noteq> []) (map strip (splitlines s))"

text \<open>The \<open>for\<close> loop: the first line that starts with a statement keyword.\<close>

fun first_statement :: "string list \<Rightarrow> string option" where
  "first_statement [] = None"
| "first_statement (line # rest) =
     (if is_statement line then Some line else first_statement rest)"

definition clean_sql_query :: "string \<Rightarrow> string" where
  "clean_sql_query sql_query =
     (let s = stripped_query sql_query;
          lines = query_lines s
      in case first_statement lines of
           Some line \<Rightarrow> line
         | None \<Rightarrow> (case lines of [] \<Rightarrow> s | l # _ \<Rightarrow> l))"

section \<open>The pipeline of app.py\<close>

subsection \<open>Result tables\<close>

text \<open>
  A pandas DataFrame as far as the code reads it: the column labels and the rows.
  The property \<open>empty\<close> of pandas holds when either axis has length zero.
\<close>

record 'v dataframe =
  columns :: "string list"
  rows :: "'v list list"

definition df_empty :: "'v dataframe \<Rightarrow> bool" where
  "df_empty df \<longleftrightarrow> columns df = [] \<or> rows df = []"

subsection \<open>The outside world\<close>

text \<open>
  The generation service, the relational store and the table renderer of pandas are not
  code of the repository; they are parameters. A call either raises, which is the left
  summand holding the text of the exception as \<open>str(e)\<close> gives it, or returns. The
  outside state \<open>'w\<close> is threaded through the calls, so that one call may succeed
  and the next one fail.
  \<^item> \<open>generate_content\<close>: \<open>model.generate_content(prompt)\<close> followed by the read of
    \<open>response.text\<close>;
  \<^item> \<open>execute_fetchall\<close>: the connection block, \<open>execute\<close> and \<open>fetchall\<close>, with
    \<open>result.keys()\<close>;
  \<^item> \<open>to_markdown\<close>: \<open>result_df.to_markdown(index=False)\<close>.
\<close>

record ('v, 'w) services =
  generate_content :: "string \<Rightarrow> 'w \<Rightarrow> (string + string) \<times> 'w"
  execute_fetchall :: "string \<Rightarrow> 'w \<Rightarrow> (string + string list \<times> 'v list list) \<times> 'w"
  to_markdown :: "'v dataframe \<Rightarrow> string"

text \<open>
  What a run has done to the outside: the prompts sent to the generation service and
  the statements sent to the store, in order, and the outside state.
\<close>

record 'w io =
  prompts :: "string list"
  statements :: "string list"
  outside :: 'w

text \<open>One generation call; both callers return \<open>response.text.strip()\<close>.\<close>

definition call_model ::
  "('v, 'w) services \<Rightarrow> string \<Rightarrow> 'w io \<Rightarrow> (string + string) \<times> 'w io" where
  "call_model svc prompt io =
     (case generate_content svc prompt (outside io) of
        (r, w) \<Rightarrow> (map_sum id strip r, io\<lparr>prompts := prompts io @ [prompt], outside := w\<rparr>))"

subsection \<open>\<open>generate_sql_query\<close>\<close>

definition sql_prompt :: "string \<Rightarrow> string \<Rightarrow> string \<Rightarrow> string" where
  "sql_prompt question table_name table_info =
     ''Given the following question and database schema, generate a valid SQLite SQL query.\<newline>Question: ''
     @ question
     @ ''\<newline>\<newline>Database Schema:\<newline>Table: '' @ table_name
     @ ''\<newline>Columns: '' @ table_info
     @ ''\<newline>\<newline>Return ONLY the SQL query, with NO explanation, NO comments, and NO formatting. Do NOT include ```sql or any markdown. Only output the SQL statement. The SQL query should be written so that the result is displayed in a well-formatted, readable table with clear column names and no extra text.''"

definition generate_sql_query ::
  "('v, 'w) services \<Rightarrow> string \<Rightarrow> string \<Rightarrow> string \<Rightarrow> 'w io \<Rightarrow> (string + string) \<times> 'w io" where
  "generate_sql_query svc question table_name table_info io =
     call_model svc (sql_prompt question table_name table_info) io"

subsection \<open>\<open>generate_friendly_answer\<close>\<close>

definition answer_prompt :: "string \<Rightarrow> string \<Rightarrow> string" where
  "answer_prompt question table_str =
     ''Given the user's question and the following SQL result table, provide a concise, user-friendly, conversational answer (do not repeat the table, just summarize the result in plain English):\<newline>Question: ''
     @ question @ ''\<newline>SQL Result Table:\<newline>'' @ table_str @ ''\<newline>Answer:''"

definition generate_friendly_answer ::
  "('v, 'w) services \<Rightarrow> string \<Rightarrow> 'v dataframe \<Rightarrow> 'w io \<Rightarrow> (string + string) \<times> 'w io" where
  "generate_friendly_answer svc question result_df io =
     (if df_empty result_df then (Inr ''No results found.'', io)
      else call_model svc (answer_prompt question (to_markdown svc result_df)) io)"

subsection \<open>The chat form handler\<close>

text \<open>The connection block and the construction of \<open>result_df\<close> from rows and keys.\<close>

definition run_query ::
  "('v, 'w) services \<Rightarrow> string \<Rightarrow> 'w io \<Rightarrow> (string + 'v dataframe) \<times> 'w io" where
  "run_query svc cleaned_sql io =
     (case execute_fetchall svc cleaned_sql (outside io) of
        (r, w) \<Rightarrow>
          (map_sum id (\<lambda>(keys, rws). \<lparr>columns = keys, rows = rws\<rparr>) r,
           io\<lparr>statements := statements io @ [cleaned_sql], outside := w\<rparr>))"

text \<open>
  A history entry is a dictionary; a key that is absent is \<open>None\<close> here. The handler
  writes two shapes: question, sql, result_df and friendly_answer; or question, sql
  and error.
\<close>

record 'v entry =
  question :: string
  sql :: string
  result_df :: "'v dataframe option"
  friendly_answer :: "string option"
  error :: "string option"

record 'v session_state =
  table_name :: string
  table_info :: string
  history :: "'v entry list"

definition append_history :: "'v entry \<Rightarrow> 'v session_state \<Rightarrow> 'v session_state" where
  "append_history e st = st\<lparr>history := history st @ [e]\<rparr>"

text \<open>
  The \<open>except\<close> branch. The script runs in a fresh namespace on every submission, so
  \<open>cleaned_sql\<close> is among the locals exactly when the assignment of this run was
  reached: the second argument is \<open>None\<close> before it and the cleaned query after it.
\<close>

definition failure_entry :: "string \<Rightarrow> string option \<Rightarrow> string \<Rightarrow> 'v entry" where
  "failure_entry user_input cleaned_sql e =
     \<lparr>question = user_input,
      sql = (case cleaned_sql of Some q \<Rightarrow> q | None \<Rightarrow> ''N/A''),
      result_df = None, friendly_answer = None, error = Some e\<rparr>"

text \<open>The body of the \<open>try\<close> statement with its single \<open>except Exception\<close> branch.\<close>

definition chat_turn ::
  "('v, 'w) services \<Rightarrow> string \<Rightarrow> 'v session_state \<times> 'w io \<Rightarrow> 'v session_state \<times> 'w io" where
  "chat_turn svc user_input s =
     (case s of (st, io) \<Rightarrow>
      (case generate_sql_query svc user_input (table_name st) (table_info st) io of
         (Inl e, io1) \<Rightarrow> (append_history (failure_entry user_input None e) st, io1)
       | (Inr sql_query, io1) \<Rightarrow>
           (let cleaned_sql = clean_sql_query sql_query in
            case run_query svc cleaned_sql io1 of
              (Inl e, io2) \<Rightarrow>
                (append_history (failure_entry user_input (Some cleaned_sql) e) st, io2)
            | (Inr df, io2) \<Rightarrow>
                (case generate_friendly_answer svc user_input df io2 of
                   (Inl e, io3) \<Rightarrow>
                     (append_history (failure_entry user_input (Some cleaned_sql) e) st, io3)
                 | (Inr answer, io3) \<Rightarrow>
                     (append_history
                        \<lparr>question = user_input, sql = cleaned_sql, result_df = Some df,
                         friendly_answer = Some answer, error = None\<rparr> st, io3)))))"

text \<open>The guard of the handler: the form was submitted and the question is not empty.\<close>

definition chat_form_submit ::
  "('v, 'w) services \<Rightarrow> bool \<Rightarrow> string \<Rightarrow> 'v session_state \<times> 'w io \<Rightarrow> 'v session_state \<times> 'w io" where
  "chat_form_submit svc submitted user_input s =
     (if submitted \<and> user_input \<noteq> [] then chat_turn svc user_input s else s)"

subsection \<open>Concrete services for the worked turns\<close>

text \<open>
  The outside state counts the generation calls. \<open>summary_down\<close> answers the first
  call with a query and fails every later call; its store returns one row.
  \<open>unknown_column\<close> answers with a query on a column the table does not have, and its
  store rejects the statement. \<open>all_up\<close> answers every call.
\<close>

definition summary_down :: "(int, nat) services" where
  "summary_down =
     \<lparr>generate_content = (\<lambda>p n.
         (if n = 0 then Inr ''SELECT COUNT(*) FROM orders'' else Inl ''503 service unavailable'',
          Suc n)),
      execute_fetchall = (\<lambda>q n. (Inr ([''COUNT(*)''], [[5]]), n)),
      to_markdown = (\<lambda>df. ''|   COUNT(*) |'')\<rparr>"

definition unknown_column :: "(int, nat) services" where
  "unknown_column =
     \<lparr>generate_content = (\<lambda>p n. (Inr ''SELECT colour FROM orders'', Suc n)),
      execute_fetchall = (\<lambda>q n. (Inl ''no such column: colour'', n)),
      to_markdown = (\<lambda>df. [])\<rparr>"

definition all_up :: "(int, nat) services" where
  "all_up =
     \<lparr>generate_content = (\<lambda>p n. (Inr '' There are 5 orders.\<newline>'', Suc n)),
      execute_fetchall = (\<lambda>q n. (Inr ([''COUNT(*)''], [[5]]), n)),
      to_markdown = (\<lambda>df. ''|   COUNT(*) |'')\<rparr>"

definition orders_session :: "int session_state \<times> nat io" where
  "orders_session =
     (\<lparr>table_name = ''orders'', table_info = ''order_id (str), customer_id (str)'', history = []\<rparr>,
      \<lparr>prompts = [], statements = [], outside = 0\<rparr>)"

section \<open>Facts about the text primitives\<close>

lemma strip_by_decomp:
  "\<exists>pre suf. s = pre @ strip_by p s @ suf \<and> list_all p pre \<and> list_all p suf"
proof -
  define t where "t = dropWhile p s"
  have s: "s = takeWhile p s @ t" by (simp add: t_def)
  have "rev (takeWhile p (rev t) @ dropWhile p (rev t)) = rev (rev t)"
    by (simp only: takeWhile_dropWhile_id)
  then have "rev (dropWhile p (rev t)) @ rev (takeWhile p (rev t)) = t"
    by (simp only: rev_append rev_rev_ident)
  then have t: "t = strip_by p s @ rev (takeWhile p (rev t))"
    by (simp only: strip_by_def t_def)
  have a: "list_all p (takeWhile p s)"
    by (simp add: list_all_iff) (meson set_takeWhileD)
  have b: "list_all p (rev (takeWhile p (rev t)))"
    by (simp add: list_all_iff) (meson set_takeWhileD)
  from s t have "s = takeWhile p s @ strip_by p s @ rev (takeWhile p (rev t))" by simp
  with a b show ?thesis by blast
qed

lemma last_dropWhile: "dropWhile p xs \<noteq> [] \<Longrightarrow> last (dropWhile p xs) = last xs"
  by (induction xs) (auto split: if_splits)

lemma strip_by_edges:
  assumes "strip_by p s \<noteq> []"
  shows "\<not> p (hd (strip_by p s))" "\<not> p (last (strip_by p s))"
proof -
  let ?t = "dropWhile p s"
  let ?u = "dropWhile p (rev ?t)"
  from assms have u: "?u \<noteq> []" by (simp add: strip_by_def)
  have t: "?t \<noteq> []"
  proof
    assume "?t = []"
    then have "?u = []" by (simp del: dropWhile_eq_Nil_conv)
    with u show False by simp
  qed
  have "last (strip_by p s) = hd ?u" using u by (simp add: strip_by_def last_rev)
  moreover have "\<not> p (hd ?u)" using u hd_dropWhile by blast
  ultimately show "\<not> p (last (strip_by p s))" by simp
  have "hd (strip_by p s) = last ?u" using u by (simp add: strip_by_def hd_rev)
  also have "\<dots> = last (rev ?t)" using u by (rule last_dropWhile)
  also have "\<dots> = hd ?t" using t by (simp add: last_rev)
  finally have "hd (strip_by p s) = hd ?t" .
  moreover have "\<not> p (hd ?t)" using t hd_dropWhile by blast
  ultimately show "\<not> p (hd (strip_by p s))" by simp
qed

lemma strip_by_id:
  assumes "s = [] \<or> (\<not> p (hd s) \<and> \<not> p (last s))"
  shows "strip_by p s = s"
proof (cases s)
  case Nil
  then show ?thesis by (simp add: strip_by_def)
next
  case (Cons a as)
  with assms have h: "\<not> p a" and l: "\<not> p (last s)" by auto
  from h Cons have 1: "dropWhile p s = s" by simp
  from Cons have "rev s \<noteq> []" by simp
  moreover have "hd (rev s) = last s" using Cons by (simp add: hd_rev)
  ultimately have "dropWhile p (rev s) = rev s" using l by (simp add: dropWhile_eq_self_iff)
  with 1 show ?thesis by (simp add: strip_by_def)
qed

lemma length_strip_by: "length (strip_by p s) \<le> length s"
proof -
  have "length (dropWhile p (rev (dropWhile p s))) \<le> length (rev (dropWhile p s))"
    by (rule length_dropWhile_le)
  also have "\<dots> \<le> length s" by (simp add: length_dropWhile_le)
  finally show ?thesis by (simp add: strip_by_def)
qed

lemma strip_by_same_length: "length (strip_by p s) = length s \<Longrightarrow> strip_by p s = s"
proof -
  assume a: "length (strip_by p s) = length s"
  obtain pre suf where d: "s = pre @ strip_by p s @ suf"
    using strip_by_decomp [of s p] by blast
  then have "length s = length pre + length (strip_by p s) + length suf"
    by (metis length_append add.assoc)
  with a have "pre = []" "suf = []" by auto
  with d show ?thesis by simp
qed

lemma strip_by_Nil_iff: "strip_by p s = [] \<longleftrightarrow> list_all p s"
proof
  assume "strip_by p s = []"
  with strip_by_decomp [of s p] show "list_all p s" by auto
next
  assume "list_all p s"
  then have "dropWhile p s = []" by (simp add: list_all_iff dropWhile_eq_Nil_conv)
  then show "strip_by p s = []" by (simp add: strip_by_def del: dropWhile_eq_Nil_conv)
qed

lemma set_strip_by: "set (strip_by p s) \<subseteq> set s"
proof -
  obtain pre suf where "s = pre @ strip_by p s @ suf" using strip_by_decomp [of s p] by blast
  then have "set s = set pre \<union> set (strip_by p s) \<union> set suf"
    by (metis set_append Un_assoc)
  then show ?thesis by blast
qed

lemma splitlines_from_no_break:
  "list_all (\<lambda>c. \<not> is_linebreak c) cur \<Longrightarrow> l \<in> set (splitlines_from cur s)
     \<Longrightarrow> list_all (\<lambda>c. \<not> is_linebreak c) l"
  by (induction cur s rule: splitlines_from.induct) (auto split: if_splits)

lemma splitlines_no_break:
  "l \<in> set (splitlines s) \<Longrightarrow> list_all (\<lambda>c. \<not> is_linebreak c) l"
  using splitlines_from_no_break [of "[]" l s] by (simp add: splitlines_def)

lemma CR_is_linebreak: "is_linebreak (CHR 0x0D)"
  by (simp add: is_linebreak_def)

lemma LF_is_linebreak: "is_linebreak (CHR 0x0A)"
  by (simp add: is_linebreak_def)

lemma splitlines_from_single:
  "list_all (\<lambda>c. \<not> is_linebreak c) s \<Longrightarrow>
     splitlines_from cur s = (if rev cur @ s = [] then [] else [rev cur @ s])"
  by (induction cur s rule: splitlines_from.induct) (use CR_is_linebreak in auto)

lemma splitlines_single:
  "list_all (\<lambda>c. \<not> is_linebreak c) s \<Longrightarrow> s \<noteq> [] \<Longrightarrow> splitlines s = [s]"
  by (simp add: splitlines_def splitlines_from_single)

lemma splitlines_from_cover:
  "c \<in> set cur \<union> set s \<Longrightarrow> \<not> is_linebreak c \<Longrightarrow>
     \<exists>l \<in> set (splitlines_from cur s). c \<in> set l"
  by (induction cur s rule: splitlines_from.induct)
    (use CR_is_linebreak LF_is_linebreak in \<open>auto split: if_splits\<close>)

lemma splitlines_cover:
  "c \<in> set s \<Longrightarrow> is_linebreak c \<or> (\<exists>l \<in> set (splitlines s). c \<in> set l)"
  using splitlines_from_cover [of c "[]" s] by (auto simp: splitlines_def)

lemma splitlines_from_length:
  "l \<in> set (splitlines_from cur s) \<Longrightarrow> length l \<le> length cur + length s"
  by (induction cur s rule: splitlines_from.induct) (auto split: if_splits)

lemma splitlines_length: "l \<in> set (splitlines s) \<Longrightarrow> length l \<le> length s"
  using splitlines_from_length [of l "[]" s] by (simp add: splitlines_def)

section \<open>Facts about the line scan and the first substitution\<close>

lemma first_statement_None: "first_statement ls = None \<longleftrightarrow> \<not> list_ex is_statement ls"
  by (induction ls) auto

lemma first_statement_Some:
  "first_statement ls = Some l \<Longrightarrow>
     \<exists>pre post. ls = pre @ l # post \<and> \<not> list_ex is_statement pre \<and> is_statement l"
proof (induction ls)
  case Nil
  then show ?case by simp
next
  case (Cons a ls)
  show ?case
  proof (cases "is_statement a")
    case True
    with Cons.prems have "a = l" by simp
    with True have "a # ls = [] @ l # ls \<and> \<not> list_ex is_statement [] \<and> is_statement l"
      by simp
    then show ?thesis by blast
  next
    case False
    with Cons.prems have "first_statement ls = Some l" by simp
    from Cons.IH [OF this] obtain pre post
      where "ls = pre @ l # post" "\<not> list_ex is_statement pre" "is_statement l" by blast
    with False have "a # ls = (a # pre) @ l # post \<and> \<not> list_ex is_statement (a # pre) \<and> is_statement l"
      by simp
    then show ?thesis by blast
  qed
qed


lemma lower_sql_not_fence:
  assumes "lower [a, b, c] = ''sql''"
  shows "\<not> list_ex (startswith (a # b # c # rest)) fences" "\<not> isspace a"
  using assms
  by (auto simp: lower_def fences_def startswith_def lower_char_def isspace_def Let_def split: if_splits)

lemma dropWhile_all: "list_all p ws \<Longrightarrow> \<not> p a \<Longrightarrow> dropWhile p (ws @ a # r) = a # r"
  by (induction ws) auto

lemma sub_leading_sql:
  assumes "list_all isspace ws" "lower [a, b, c] = ''sql''"
  shows "sub_leading_fence (ws @ a # b # c # rest) = dropWhile isspace rest"
proof -
  have nf: "\<not> list_ex (startswith (ws @ a # b # c # rest)) fences"
  proof (cases ws)
    case Nil
    then show ?thesis using lower_sql_not_fence(1) [OF assms(2)] by simp
  next
    case (Cons w ws')
    with assms(1) have "isspace w" by simp
    then show ?thesis using Cons
      by (auto simp: fences_def startswith_def isspace_def)
  qed
  have "dropWhile isspace (ws @ a # b # c # rest) = a # b # c # rest"
    using dropWhile_all [OF assms(1) lower_sql_not_fence(2) [OF assms(2)]] .
  then show ?thesis
    using nf assms(2) by (simp add: sub_leading_fence_def Let_def lower_def)
qed

section \<open>Sanitizer: worked inputs\<close>

text \<open>
  C7. The fenced input: three backticks and the tag sql, a line feed, SELECT 1, a line
  feed and three backticks, is cleaned to exactly SELECT 1.
\<close>

theorem fenced_select_cleaned:
  "clean_sql_query ''```sql\<newline>SELECT 1\<newline>```'' = ''SELECT 1''"
  by code_simp

text \<open>
  C10. The first substitution removes a leading tag sql, in either case and with the
  whitespace around it, also when no fence stands before it: every input made of
  whitespace, the three letters and a rest goes on as the rest without its leading
  whitespace. So sqlite_master is cleaned to ite_master.
\<close>

theorem bare_sql_tag_removed:
  "(list_all isspace ws \<and> lower [a, b, c] = ''sql'' \<longrightarrow>
      sub_leading_fence (ws @ a # b # c # rest) = dropWhile isspace rest)
   \<and> clean_sql_query ''sqlite_master'' = ''ite_master''"
proof (intro conjI impI)
  assume "list_all isspace ws \<and> lower [a, b, c] = ''sql''"
  then show "sub_leading_fence (ws @ a # b # c # rest) = dropWhile isspace rest"
    using sub_leading_sql by blast
next
  show "clean_sql_query ''sqlite_master'' = ''ite_master''" by code_simp
qed

theorem bare_sql_tag_removed_witness:
  "list_all isspace '' '' \<and> lower ''SqL'' = ''sql'' \<and>
   sub_leading_fence '' SqL  ite_master'' = ''ite_master''"
proof -
  have h: "list_all isspace '' '' \<and> lower ''SqL'' = ''sql''" by code_simp
  have d: "dropWhile isspace ''  ite_master'' = ''ite_master''" by code_simp
  from bare_sql_tag_removed [where ws = "'' ''" and a = "CHR ''S''" and b = "CHR ''q''"
      and c = "CHR ''L''" and rest = "''  ite_master''"] h d
  show ?thesis by simp
qed



text \<open>
  C5 (as amended). The lines that count are those of the string left by the two
  substitutions and the strip call, not those of the input. When some non-empty
  trimmed line of that string starts, in lower case, with select, update, delete,
  insert or with, the result is the first such line in order: the lines before it do
  not start with a keyword and do not matter. So a comment line followed by
  SELECT * FROM t is cleaned to SELECT * FROM t.
\<close>

theorem keyword_line_wins:
  "(list_ex is_statement (query_lines (stripped_query x)) \<longrightarrow>
      (\<exists>pre l post. query_lines (stripped_query x) = pre @ l # post
          \<and> \<not> list_ex is_statement pre \<and> is_statement l \<and> clean_sql_query x = l))
   \<and> clean_sql_query ''-- comment\<newline>SELECT * FROM t'' = ''SELECT * FROM t''"
proof (intro conjI impI)
  assume "list_ex is_statement (query_lines (stripped_query x))"
  then obtain l where l: "first_statement (query_lines (stripped_query x)) = Some l"
    using first_statement_None by fastforce
  then have "clean_sql_query x = l" by (simp add: clean_sql_query_def)
  with first_statement_Some [OF l]
  show "\<exists>pre l post. query_lines (stripped_query x) = pre @ l # post
          \<and> \<not> list_ex is_statement pre \<and> is_statement l \<and> clean_sql_query x = l"
    by blast
next
  show "clean_sql_query ''-- comment\<newline>SELECT * FROM t'' = ''SELECT * FROM t''" by code_simp
qed

theorem keyword_line_wins_witness:
  "list_ex is_statement (query_lines (stripped_query ''Here you go:\<newline>\<newline>  Select 1  \<newline>WITH x AS y''))
   \<and> query_lines (stripped_query ''Here you go:\<newline>\<newline>  Select 1  \<newline>WITH x AS y'')
       = [''Here you go:'', ''Select 1'', ''WITH x AS y'']
   \<and> clean_sql_query ''Here you go:\<newline>\<newline>  Select 1  \<newline>WITH x AS y'' = ''Select 1''"
proof -
  let ?x = "''Here you go:\<newline>\<newline>  Select 1  \<newline>WITH x AS y''"
  have h: "list_ex is_statement (query_lines (stripped_query ?x))" by code_simp
  have q: "query_lines (stripped_query ?x) = [''Here you go:'', ''Select 1'', ''WITH x AS y'']"
    by code_simp
  have n: "\<not> is_statement ''Here you go:''" by code_simp
  from keyword_line_wins [of ?x] h obtain pre l post where
    s: "query_lines (stripped_query ?x) = pre @ l # post" and p: "\<not> list_ex is_statement pre"
    and l: "is_statement l" and c: "clean_sql_query ?x = l" by blast
  from s q have e: "pre @ l # post = [''Here you go:'', ''Select 1'', ''WITH x AS y'']" by simp
  have "l = ''Select 1''"
  proof (cases pre)
    case Nil
    with e l n show ?thesis by simp
  next
    case (Cons a pre')
    with e have a: "a = ''Here you go:''" and e': "pre' @ l # post = [''Select 1'', ''WITH x AS y'']"
      by simp_all
    show ?thesis
    proof (cases pre')
      case Nil
      with e' show ?thesis by simp
    next
      case (Cons b pre'')
      with e' have "b = ''Select 1''" by simp
      moreover have "is_statement ''Select 1''" by code_simp
      ultimately show ?thesis using p \<open>pre = a # pre'\<close> Cons by simp
    qed
  qed
  with h q c show ?thesis by simp
qed

text \<open>
  C5 as stated, over the lines of the input, fails. In the first input the first line
  of the input that starts with a keyword is select 1, and the result is with a: the
  first substitution has removed the fence and the tag in front of it. In the second
  input the only line starts with a keyword, and the result is that line without its
  closing quote.
\<close>

theorem input_keyword_line_not_returned:
  "first_statement (query_lines ([CHR 0x27, CHR 0x27, CHR 0x27] @ ''sql with a\<newline>select 1''))
     = Some ''select 1''
   \<and> clean_sql_query ([CHR 0x27, CHR 0x27, CHR 0x27] @ ''sql with a\<newline>select 1'') = ''with a''
   \<and> first_statement (query_lines (''SELECT name FROM t WHERE city = 'Paris'' @ [CHR 0x27]))
     = Some (''SELECT name FROM t WHERE city = 'Paris'' @ [CHR 0x27])
   \<and> clean_sql_query (''SELECT name FROM t WHERE city = 'Paris'' @ [CHR 0x27])
     = ''SELECT name FROM t WHERE city = 'Paris''"
  by code_simp

section \<open>Sanitizer: the strip step and the shape of the result\<close>

lemma query_lines_shape:
  assumes "l \<in> set (query_lines s)"
  shows "l \<noteq> []" "list_all (\<lambda>c. \<not> is_linebreak c) l" "\<not> isspace (hd l)" "\<not> isspace (last l)"
proof -
  from assms obtain r where r: "r \<in> set (splitlines s)" and l: "l = strip r" and ne: "l \<noteq> []"
    by (auto simp: query_lines_def)
  show "l \<noteq> []" by (rule ne)
  from splitlines_no_break [OF r] have "list_all (\<lambda>c. \<not> is_linebreak c) r" .
  moreover have "set l \<subseteq> set r" unfolding l strip_def by (rule set_strip_by)
  ultimately show "list_all (\<lambda>c. \<not> is_linebreak c) l" by (auto simp: list_all_iff)
  from ne have "strip_by isspace r \<noteq> []" by (simp add: l strip_def)
  from strip_by_edges [OF this] show "\<not> isspace (hd l)" "\<not> isspace (last l)"
    by (simp_all add: l strip_def)
qed

lemma clean_in_lines:
  "query_lines (stripped_query x) \<noteq> [] \<Longrightarrow> clean_sql_query x \<in> set (query_lines (stripped_query x))"
proof -
  assume ne: "query_lines (stripped_query x) \<noteq> []"
  show ?thesis
  proof (cases "first_statement (query_lines (stripped_query x))")
    case None
    with ne show ?thesis
      by (cases "query_lines (stripped_query x)") (simp_all add: clean_sql_query_def)
  next
    case (Some l)
    from first_statement_Some [OF Some] have "l \<in> set (query_lines (stripped_query x))" by auto
    with Some show ?thesis by (simp add: clean_sql_query_def)
  qed
qed

lemma statement_first_char:
  assumes "is_statement y"
  shows "y \<noteq> []" "hd y \<notin> set strip_set" "\<not> isspace (hd y)" "lower (take 3 y) \<noteq> ''sql''"
proof -
  from assms obtain k where k: "k \<in> set statement_keywords" and t: "take (length k) (lower y) = k"
    by (auto simp: is_statement_def list_ex_iff startswith_def)
  from k t show ne: "y \<noteq> []" by (auto simp: statement_keywords_def lower_def)
  then obtain c cs where y: "y = c # cs" by (cases y) auto
  from k t y have c: "lower_char c \<in> set ''sudiw''"
    by (auto simp: statement_keywords_def lower_def)
  then show "hd y \<notin> set strip_set"
    by (auto simp: y strip_set_def lower_char_def Let_def)
  from c show "\<not> isspace (hd y)"
    by (auto simp: y isspace_def lower_char_def Let_def)
  from k t y show "lower (take 3 y) \<noteq> ''sql''"
    by (cases cs) (auto simp: statement_keywords_def lower_def)
qed

text \<open>
  What the strip call does: it removes from both ends characters of its argument
  only, and what is left, unless empty, neither starts nor ends with one of them.
\<close>

lemma stripped_query_decomposition:
  "set strip_set = {CHR 0x60, CHR 0x27, CHR 0x22, CHR '' '', CHR ''\<newline>''} \<and>
   (\<exists>pre suf. sub_trailing_fence (sub_leading_fence x) = pre @ stripped_query x @ suf
       \<and> set pre \<subseteq> set strip_set \<and> set suf \<subseteq> set strip_set) \<and>
   (stripped_query x = [] \<or>
      (hd (stripped_query x) \<notin> set strip_set \<and> last (stripped_query x) \<notin> set strip_set))"
proof (intro conjI)
  show "set strip_set = {CHR 0x60, CHR 0x27, CHR 0x22, CHR '' '', CHR ''\<newline>''}"
    by (simp add: strip_set_def)
  let ?p = "\<lambda>c. c \<in> set strip_set"
  let ?s = "sub_trailing_fence (sub_leading_fence x)"
  have q: "stripped_query x = strip_by ?p ?s" by (simp add: stripped_query_def strip_chars_def)
  from strip_by_decomp [of ?s ?p] obtain pre suf
    where "?s = pre @ strip_by ?p ?s @ suf" "list_all ?p pre" "list_all ?p suf" by blast
  then have "?s = pre @ stripped_query x @ suf \<and> set pre \<subseteq> set strip_set \<and> set suf \<subseteq> set strip_set"
    by (auto simp: q list_all_iff)
  then show "\<exists>pre suf. ?s = pre @ stripped_query x @ suf
       \<and> set pre \<subseteq> set strip_set \<and> set suf \<subseteq> set strip_set" by blast
  show "stripped_query x = [] \<or>
      (hd (stripped_query x) \<notin> set strip_set \<and> last (stripped_query x) \<notin> set strip_set)"
    using strip_by_edges [of ?p ?s] unfolding q by blast
qed

text \<open>
  C6. The claim: after the two substitutions every backtick, quote and whitespace
  character, a carriage return included, is stripped from both ends of the whole
  string before it is split into lines; the comment on the strip call in chatbot.py
  says the same of leading and trailing whitespace. The code misses the carriage
  return. On a fenced reply with CR LF line ends and a quoted statement, the string
  that is split still ends with the closing quote and a carriage return, where the
  strip of the claim leaves SELECT 1, and the result of \<open>clean_sql_query\<close> keeps
  the closing quote.
\<close>

theorem carriage_return_survives_strip:
  "stripped_query (''```sql'' @ [CHR 0x0D, CHR 0x0A, CHR 0x27] @ ''SELECT 1''
       @ [CHR 0x27, CHR 0x0D, CHR 0x0A] @ ''```'')
     = ''SELECT 1'' @ [CHR 0x27, CHR 0x0D]
   \<and> isspace (last (stripped_query (''```sql'' @ [CHR 0x0D, CHR 0x0A, CHR 0x27] @ ''SELECT 1''
       @ [CHR 0x27, CHR 0x0D, CHR 0x0A] @ ''```'')))
   \<and> strip_by (\<lambda>c. c \<in> set strip_set \<or> isspace c)
        (sub_trailing_fence (sub_leading_fence (''```sql'' @ [CHR 0x0D, CHR 0x0A, CHR 0x27] @ ''SELECT 1''
       @ [CHR 0x27, CHR 0x0D, CHR 0x0A] @ ''```'')))
     = ''SELECT 1''
   \<and> clean_sql_query (''```sql'' @ [CHR 0x0D, CHR 0x0A, CHR 0x27] @ ''SELECT 1''
       @ [CHR 0x27, CHR 0x0D, CHR 0x0A] @ ''```'')
     = ''SELECT 1'' @ [CHR 0x27]"
  by code_simp

text \<open>
  C3 (as amended). When the stripped string has a line that is not blank, the result
  is not empty, holds no line boundary, and neither starts nor ends with whitespace.
  When, in addition, one of these lines starts in lower case with select, update,
  delete, insert or with, so does the result, which therefore starts with none of the
  stripped characters (backtick, quotes, space, line feed). Nothing is said about
  backticks and quotes inside or at the end of the result, nor about inputs without a
  keyword line or without any line.
\<close>

theorem cleaned_query_shape:
  "(list_ex (\<lambda>l. strip l \<noteq> []) (splitlines (stripped_query x)) \<longrightarrow>
      clean_sql_query x \<noteq> [] \<and> list_all (\<lambda>c. \<not> is_linebreak c) (clean_sql_query x)
      \<and> \<not> isspace (hd (clean_sql_query x)) \<and> \<not> isspace (last (clean_sql_query x)))
   \<and> (list_ex (\<lambda>l. is_statement (strip l)) (splitlines (stripped_query x)) \<longrightarrow>
      clean_sql_query x \<noteq> [] \<and> list_all (\<lambda>c. \<not> is_linebreak c) (clean_sql_query x)
      \<and> \<not> isspace (last (clean_sql_query x))
      \<and> is_statement (clean_sql_query x) \<and> hd (clean_sql_query x) \<notin> set strip_set)"
proof (intro conjI impI)
  assume "list_ex (\<lambda>l. strip l \<noteq> []) (splitlines (stripped_query x))"
  then have "query_lines (stripped_query x) \<noteq> []"
    by (auto simp: query_lines_def list_ex_iff filter_empty_conv)
  from clean_in_lines [OF this] have m: "clean_sql_query x \<in> set (query_lines (stripped_query x))" .
  from query_lines_shape [OF m]
  show "clean_sql_query x \<noteq> []" "list_all (\<lambda>c. \<not> is_linebreak c) (clean_sql_query x)"
    "\<not> isspace (hd (clean_sql_query x))" "\<not> isspace (last (clean_sql_query x))" by blast+
next
  assume "list_ex (\<lambda>l. is_statement (strip l)) (splitlines (stripped_query x))"
  then obtain r where r: "r \<in> set (splitlines (stripped_query x))" and st: "is_statement (strip r)"
    by (auto simp: list_ex_iff)
  from statement_first_char(1) [OF st] r have "strip r \<in> set (query_lines (stripped_query x))"
    by (auto simp: query_lines_def)
  with st have ex: "list_ex is_statement (query_lines (stripped_query x))"
    by (auto simp: list_ex_iff)
  then obtain l where l: "first_statement (query_lines (stripped_query x)) = Some l"
    using first_statement_None by fastforce
  then have c: "clean_sql_query x = l" by (simp add: clean_sql_query_def)
  from first_statement_Some [OF l] have m: "l \<in> set (query_lines (stripped_query x))"
    and s: "is_statement l" by auto
  from query_lines_shape [OF m] c
  show "clean_sql_query x \<noteq> []" "list_all (\<lambda>c. \<not> is_linebreak c) (clean_sql_query x)"
    "\<not> isspace (last (clean_sql_query x))" by simp_all
  from s c show "is_statement (clean_sql_query x)" by simp
  from statement_first_char(2) [OF s] c show "hd (clean_sql_query x) \<notin> set strip_set" by simp
qed

theorem cleaned_query_shape_witness:
  "list_ex (\<lambda>l. strip l \<noteq> []) (splitlines (stripped_query ''```sql\<newline>Sure!\<newline>  Select 1  \<newline>```''))
   \<and> list_ex (\<lambda>l. is_statement (strip l)) (splitlines (stripped_query ''```sql\<newline>Sure!\<newline>  Select 1  \<newline>```''))
   \<and> clean_sql_query ''```sql\<newline>Sure!\<newline>  Select 1  \<newline>```'' = ''Select 1''
   \<and> is_statement (clean_sql_query ''```sql\<newline>Sure!\<newline>  Select 1  \<newline>```'')"
proof -
  let ?x = "''```sql\<newline>Sure!\<newline>  Select 1  \<newline>```''"
  have a: "list_ex (\<lambda>l. strip l \<noteq> []) (splitlines (stripped_query ?x))" by code_simp
  have b: "list_ex (\<lambda>l. is_statement (strip l)) (splitlines (stripped_query ?x))" by code_simp
  have c: "clean_sql_query ?x = ''Select 1''" by code_simp
  from cleaned_query_shape [of ?x] a b c show ?thesis by blast
qed

text \<open>
  C3 as stated fails: a text without a keyword line is returned without a keyword, the
  empty text gives the empty text, and a fence that closes the statement on a line
  followed by another line stays in the result.
\<close>

theorem cleaned_query_invariant_fails:
  "clean_sql_query ''just some text'' = ''just some text''
   \<and> \<not> is_statement (clean_sql_query ''just some text'')
   \<and> clean_sql_query [] = []
   \<and> clean_sql_query ''```sql SELECT 1 ```\<newline>Done.'' = ''SELECT 1 ```''"
  by code_simp

section \<open>The answer to an empty and to a non-empty result\<close>

text \<open>
  C8. For a result table with no rows, \<open>generate_friendly_answer\<close> returns the literal
  No results found. and makes no generation call: the log of prompts and the outside
  state are as before. For a table with rows (and columns), it makes exactly one
  generation call, with the answer prompt built from the question and the rendered
  table, and returns the text of the reply stripped of surrounding whitespace; if
  that call raises, the exception goes to the caller.
\<close>

theorem friendly_answer_empty_and_nonempty:
  "(rows df = [] \<longrightarrow>
      generate_friendly_answer svc q df io = (Inr ''No results found.'', io))
   \<and> (rows df \<noteq> [] \<and> columns df \<noteq> [] \<longrightarrow>
      (\<exists>r w. generate_content svc (answer_prompt q (to_markdown svc df)) (outside io) = (r, w)
         \<and> fst (generate_friendly_answer svc q df io) =
              (case r of Inl e \<Rightarrow> Inl e | Inr reply \<Rightarrow> Inr (strip reply))
         \<and> prompts (snd (generate_friendly_answer svc q df io)) =
              prompts io @ [answer_prompt q (to_markdown svc df)]
         \<and> outside (snd (generate_friendly_answer svc q df io)) = w
         \<and> statements (snd (generate_friendly_answer svc q df io)) = statements io))"
proof (intro conjI impI)
  assume "rows df = []"
  then show "generate_friendly_answer svc q df io = (Inr ''No results found.'', io)"
    by (simp add: generate_friendly_answer_def df_empty_def)
next
  assume ne: "rows df \<noteq> [] \<and> columns df \<noteq> []"
  let ?p = "answer_prompt q (to_markdown svc df)"
  obtain r w where g: "generate_content svc ?p (outside io) = (r, w)"
    by (cases "generate_content svc ?p (outside io)") auto
  from ne have e: "generate_friendly_answer svc q df io = call_model svc ?p io"
    by (simp add: generate_friendly_answer_def df_empty_def)
  have "fst (call_model svc ?p io) = (case r of Inl e \<Rightarrow> Inl e | Inr reply \<Rightarrow> Inr (strip reply))"
    using g by (cases r) (simp_all add: call_model_def)
  moreover have "prompts (snd (call_model svc ?p io)) = prompts io @ [?p]"
    "outside (snd (call_model svc ?p io)) = w"
    "statements (snd (call_model svc ?p io)) = statements io"
    using g by (simp_all add: call_model_def)
  ultimately show "\<exists>r w. generate_content svc ?p (outside io) = (r, w)
         \<and> fst (generate_friendly_answer svc q df io) =
              (case r of Inl e \<Rightarrow> Inl e | Inr reply \<Rightarrow> Inr (strip reply))
         \<and> prompts (snd (generate_friendly_answer svc q df io)) = prompts io @ [?p]
         \<and> outside (snd (generate_friendly_answer svc q df io)) = w
         \<and> statements (snd (generate_friendly_answer svc q df io)) = statements io"
    using g e by simp
qed

theorem friendly_answer_empty_and_nonempty_witness:
  "generate_friendly_answer all_up ''how many orders are there''
      \<lparr>columns = [''COUNT(*)''], rows = ([] :: int list list)\<rparr> (snd orders_session)
     = (Inr ''No results found.'', snd orders_session)
   \<and> fst (generate_friendly_answer all_up ''how many orders are there''
      \<lparr>columns = [''COUNT(*)''], rows = [[5]]\<rparr> (snd orders_session))
     = Inr ''There are 5 orders.''
   \<and> length (prompts (snd (generate_friendly_answer all_up ''how many orders are there''
      \<lparr>columns = [''COUNT(*)''], rows = [[5]]\<rparr> (snd orders_session)))) = 1"
proof -
  let ?q = "''how many orders are there''"
  let ?io = "snd orders_session"
  let ?d0 = "\<lparr>columns = [''COUNT(*)''], rows = ([] :: int list list)\<rparr>"
  let ?d1 = "\<lparr>columns = [''COUNT(*)''], rows = [[5 :: int]]\<rparr>"
  have a: "generate_friendly_answer all_up ?q ?d0 ?io = (Inr ''No results found.'', ?io)"
    using friendly_answer_empty_and_nonempty [of ?d0 all_up ?q ?io] by simp
  from friendly_answer_empty_and_nonempty [of ?d1 all_up ?q ?io]
  obtain r w where g: "generate_content all_up (answer_prompt ?q (to_markdown all_up ?d1)) (outside ?io) = (r, w)"
    and f: "fst (generate_friendly_answer all_up ?q ?d1 ?io) =
              (case r of Inl e \<Rightarrow> Inl e | Inr reply \<Rightarrow> Inr (strip reply))"
    and p: "prompts (snd (generate_friendly_answer all_up ?q ?d1 ?io)) =
              prompts ?io @ [answer_prompt ?q (to_markdown all_up ?d1)]"
    by auto
  from g have r: "r = Inr '' There are 5 orders.\<newline>''" by (simp add: all_up_def)
  have s: "strip '' There are 5 orders.\<newline>'' = ''There are 5 orders.''" by code_simp
  from f r s have b: "fst (generate_friendly_answer all_up ?q ?d1 ?io) = Inr ''There are 5 orders.''"
    by simp
  from p have c: "length (prompts (snd (generate_friendly_answer all_up ?q ?d1 ?io))) = 1"
    by (simp add: orders_session_def)
  from a b c show ?thesis by blast
qed

section \<open>Outcomes of a turn\<close>

text \<open>
  C2 (as amended). When the query was generated and cleaned, the store returned a
  result table, and the generation call of the summary fails, the outcome appended to
  the history is the error outcome: it carries the question, the cleaned query and
  the text of the error, and neither the result table nor a summary.
\<close>

theorem summary_failure_is_error_outcome:
  assumes "generate_sql_query svc q (table_name st) (table_info st) io = (Inr raw, io1)"
    and "run_query svc (clean_sql_query raw) io1 = (Inr df, io2)"
    and "generate_friendly_answer svc q df io2 = (Inl e, io3)"
    and "q \<noteq> []"
  shows "chat_form_submit svc True q (st, io) =
     (st\<lparr>history := history st @
        [\<lparr>question = q, sql = clean_sql_query raw, result_df = None,
          friendly_answer = None, error = Some e\<rparr>]\<rparr>, io3)"
  using assms
  by (simp add: chat_form_submit_def chat_turn_def append_history_def failure_entry_def)

theorem summary_failure_is_error_outcome_witness:
  "chat_form_submit summary_down True ''how many orders are there'' orders_session =
     (\<lparr>table_name = ''orders'', table_info = ''order_id (str), customer_id (str)'',
       history = [\<lparr>question = ''how many orders are there'',
         sql = ''SELECT COUNT(*) FROM orders'', result_df = None,
         friendly_answer = None, error = Some ''503 service unavailable''\<rparr>]\<rparr>,
      \<lparr>prompts = [sql_prompt ''how many orders are there'' ''orders'' ''order_id (str), customer_id (str)'',
                  answer_prompt ''how many orders are there'' ''|   COUNT(*) |''],
       statements = [''SELECT COUNT(*) FROM orders''], outside = 2\<rparr>)"
proof -
  let ?q = "''how many orders are there''"
  let ?st = "\<lparr>table_name = ''orders'', table_info = ''order_id (str), customer_id (str)'',
       history = ([] :: int entry list)\<rparr>"
  let ?io = "\<lparr>prompts = [], statements = [], outside = (0::nat)\<rparr>"
  let ?p1 = "sql_prompt ?q ''orders'' ''order_id (str), customer_id (str)''"
  let ?io1 = "\<lparr>prompts = [?p1], statements = [], outside = (1::nat)\<rparr>"
  let ?io2 = "\<lparr>prompts = [?p1], statements = [''SELECT COUNT(*) FROM orders''], outside = (1::nat)\<rparr>"
  let ?df = "\<lparr>columns = [''COUNT(*)''], rows = [[5::int]]\<rparr>"
  let ?io3 = "\<lparr>prompts = [?p1, answer_prompt ?q ''|   COUNT(*) |''],
       statements = [''SELECT COUNT(*) FROM orders''], outside = (2::nat)\<rparr>"
  have s: "strip ''SELECT COUNT(*) FROM orders'' = ''SELECT COUNT(*) FROM orders''" by code_simp
  have c: "clean_sql_query ''SELECT COUNT(*) FROM orders'' = ''SELECT COUNT(*) FROM orders''"
    by code_simp
  have 1: "generate_sql_query summary_down ?q (table_name ?st) (table_info ?st) ?io
      = (Inr ''SELECT COUNT(*) FROM orders'', ?io1)"
    by (simp add: generate_sql_query_def call_model_def summary_down_def s)
  have 2: "run_query summary_down (clean_sql_query ''SELECT COUNT(*) FROM orders'') ?io1 = (Inr ?df, ?io2)"
    by (simp add: run_query_def summary_down_def c)
  have 3: "generate_friendly_answer summary_down ?q ?df ?io2 = (Inl ''503 service unavailable'', ?io3)"
    by (simp add: generate_friendly_answer_def df_empty_def call_model_def summary_down_def)
  have 4: "?q \<noteq> []" by simp
  from summary_failure_is_error_outcome [OF 1 2 3 4] c
  show ?thesis by (simp add: orders_session_def)
qed

text \<open>
  C2 as stated fails: with a service whose second generation call raises, the store
  has run the statement and returned a row, and the entry appended holds the error and
  no result table.
\<close>

theorem summary_failure_discards_result:
  "history (fst (chat_form_submit summary_down True ''how many orders are there'' orders_session))
     = [\<lparr>question = ''how many orders are there'', sql = ''SELECT COUNT(*) FROM orders'',
          result_df = None, friendly_answer = None, error = Some ''503 service unavailable''\<rparr>]
   \<and> statements (snd (chat_form_submit summary_down True ''how many orders are there'' orders_session))
     = [''SELECT COUNT(*) FROM orders'']"
  by code_simp

text \<open>
  C9. A turn is a submission of the form with a question that is not empty (the guard
  of the handler). Every turn appends exactly one entry to the history, and the entry
  carries the question. When the first generation call fails, cleaning was not reached:
  the entry holds the text of the error and the literal N/A as its query. Otherwise
  the entry holds the cleaned query unchanged, together with the text of the error
  when the store rejects the statement or the summary call fails, and together with
  the result table when every stage succeeds.
\<close>

theorem every_turn_appends_one_outcome:
  assumes "submitted" and "user_input \<noteq> []"
  shows "\<exists>e. history (fst (chat_form_submit svc submitted user_input (st, io))) = history st @ [e]
     \<and> question e = user_input
     \<and> (case generate_sql_query svc user_input (table_name st) (table_info st) io of
          (Inl err, io1) \<Rightarrow> sql e = ''N/A'' \<and> error e = Some err \<and> result_df e = None
        | (Inr raw, io1) \<Rightarrow>
            sql e = clean_sql_query raw \<and>
            (case run_query svc (clean_sql_query raw) io1 of
               (Inl err, io2) \<Rightarrow> error e = Some err \<and> result_df e = None
             | (Inr df, io2) \<Rightarrow>
                 (case generate_friendly_answer svc user_input df io2 of
                    (Inl err, io3) \<Rightarrow> error e = Some err \<and> result_df e = None
                  | (Inr answer, io3) \<Rightarrow> error e = None \<and> result_df e = Some df)))"
proof -
  let ?gen = "generate_sql_query svc user_input (table_name st) (table_info st) io"
  from assms have t: "chat_form_submit svc submitted user_input (st, io) = chat_turn svc user_input (st, io)"
    by (simp add: chat_form_submit_def)
  obtain r1 io1 where g: "?gen = (r1, io1)" by (cases ?gen) auto
  show ?thesis
  proof (cases r1)
    case (Inl err)
    with g show ?thesis
      unfolding t by (simp add: chat_turn_def append_history_def failure_entry_def)
  next
    case (Inr raw)
    let ?run = "run_query svc (clean_sql_query raw) io1"
    obtain r2 io2 where r: "?run = (r2, io2)" by (cases ?run) auto
    show ?thesis
    proof (cases r2)
      case (Inl err)
      with g r Inr show ?thesis
        unfolding t by (simp add: chat_turn_def append_history_def failure_entry_def)
    next
      case df: (Inr df)
      let ?ans = "generate_friendly_answer svc user_input df io2"
      obtain r3 io3 where a: "?ans = (r3, io3)" by (cases ?ans) auto
      show ?thesis
      proof (cases r3)
        case (Inl err)
        with g r a Inr df show ?thesis
          unfolding t by (simp add: chat_turn_def append_history_def failure_entry_def)
      next
        case ans: (Inr answer)
        with g r a Inr df show ?thesis
          unfolding t by (simp add: chat_turn_def append_history_def)
      qed
    qed
  qed
qed

theorem every_turn_appends_one_outcome_witness:
  "history (fst (chat_form_submit unknown_column True ''which colours sell best'' orders_session))
     = [\<lparr>question = ''which colours sell best'', sql = ''SELECT colour FROM orders'',
          result_df = None, friendly_answer = None, error = Some ''no such column: colour''\<rparr>]"
proof -
  let ?q = "''which colours sell best''"
  let ?st = "fst orders_session"
  let ?io = "snd orders_session"
  let ?io1 = "\<lparr>prompts = [sql_prompt ?q (table_name ?st) (table_info ?st)], statements = [],
      outside = Suc 0\<rparr>"
  let ?io2 = "\<lparr>prompts = [sql_prompt ?q (table_name ?st) (table_info ?st)],
      statements = [''SELECT colour FROM orders''], outside = Suc 0\<rparr>"
  have q: "?q \<noteq> []" by simp
  have s: "strip ''SELECT colour FROM orders'' = ''SELECT colour FROM orders''" by code_simp
  have c: "clean_sql_query ''SELECT colour FROM orders'' = ''SELECT colour FROM orders''"
    by code_simp
  have g: "generate_sql_query unknown_column ?q (table_name ?st) (table_info ?st) ?io
      = (Inr ''SELECT colour FROM orders'', ?io1)"
    by (simp add: generate_sql_query_def call_model_def unknown_column_def s orders_session_def)
  have r: "run_query unknown_column ''SELECT colour FROM orders'' ?io1 = (Inl ''no such column: colour'', ?io2)"
    by (simp add: run_query_def unknown_column_def)
  have fa: "friendly_answer (last (history (fst (chat_form_submit unknown_column True ?q orders_session)))) = None"
    by code_simp
  have p: "(?st, ?io) = orders_session" by simp
  from every_turn_appends_one_outcome [OF TrueI q, of unknown_column ?st ?io]
  obtain e where h: "history (fst (chat_form_submit unknown_column True ?q orders_session)) = history ?st @ [e]"
    and qe: "question e = ?q"
    and f: "sql e = ''SELECT colour FROM orders''"
    "error e = Some ''no such column: colour''" "result_df e = None"
    unfolding g p prod.case sum.case c r by (elim exE conjE)
  from h have "last (history (fst (chat_form_submit unknown_column True ?q orders_session))) = e"
    by simp
  with fa have "friendly_answer e = None" by simp
  with f qe have "e = \<lparr>question = ?q, sql = ''SELECT colour FROM orders'',
          result_df = None, friendly_answer = None, error = Some ''no such column: colour''\<rparr>"
    by (cases e) simp
  with h show ?thesis by (simp add: orders_session_def)
qed

section \<open>Sanitizer: fixed points\<close>

lemma linebreak_isspace: "is_linebreak c \<Longrightarrow> isspace c"
  by (auto simp: is_linebreak_def isspace_def)

lemma splitlines_from_subset:
  "l \<in> set (splitlines_from cur s) \<Longrightarrow> set l \<subseteq> set cur \<union> set s"
  by (induction cur s rule: splitlines_from.induct) (auto split: if_splits)

lemma splitlines_subset: "l \<in> set (splitlines s) \<Longrightarrow> set l \<subseteq> set s"
  using splitlines_from_subset [of l "[]" s] by (simp add: splitlines_def)

lemma no_lines_all_space:
  assumes "query_lines s = []"
  shows "list_all isspace s"
proof -
  have "isspace c" if c: "c \<in> set s" for c
  proof (cases "is_linebreak c")
    case True
    then show ?thesis by (rule linebreak_isspace)
  next
    case False
    with splitlines_cover [OF c] obtain l where l: "l \<in> set (splitlines s)" and cl: "c \<in> set l"
      by blast
    from assms l have "strip l = []" by (auto simp: query_lines_def filter_empty_conv)
    then have "list_all isspace l" by (simp add: strip_def strip_by_Nil_iff)
    with cl show ?thesis by (simp add: list_all_iff)
  qed
  then show ?thesis by (simp add: list_all_iff)
qed

lemma all_space_no_lines:
  assumes "list_all isspace s"
  shows "query_lines s = []"
proof -
  have "strip l = []" if l: "l \<in> set (splitlines s)" for l
  proof -
    from splitlines_subset [OF l] assms have "list_all isspace l" by (auto simp: list_all_iff)
    then show ?thesis by (simp add: strip_def strip_by_Nil_iff)
  qed
  then show ?thesis by (auto simp: query_lines_def filter_empty_conv)
qed

lemma single_line_lines:
  assumes "y \<noteq> []" "list_all (\<lambda>c. \<not> is_linebreak c) y" "\<not> isspace (hd y)" "\<not> isspace (last y)"
  shows "query_lines y = [y]"
proof -
  have "splitlines y = [y]" using assms(2,1) by (rule splitlines_single)
  moreover have "strip y = y" unfolding strip_def using assms(3,4) by (intro strip_by_id) simp
  ultimately show ?thesis using assms(1) by (simp add: query_lines_def)
qed

lemma startswith_fence_hd:
  "list_ex (startswith y) fences \<Longrightarrow> y \<noteq> [] \<and> hd y \<in> {CHR 0x60, CHR 0x27}"
  by (cases y) (auto simp: fences_def startswith_def)

lemma endswith_last:
  assumes "endswith y f" "f \<noteq> []"
  shows "y \<noteq> []" "last y = last f"
proof -
  from assms have d: "drop (length y - length f) y = f" by (simp add: endswith_def)
  with assms(2) show "y \<noteq> []" by auto
  have "y = take (length y - length f) y @ drop (length y - length f) y" by simp
  with d have "y = take (length y - length f) y @ f" by simp
  then have "last y = last (take (length y - length f) y @ f)" by simp
  with assms(2) show "last y = last f" by simp
qed

lemma endswith_fence_last:
  "list_ex (endswith y) fences \<Longrightarrow> y \<noteq> [] \<and> last y \<in> {CHR 0x60, CHR 0x27}"
  "list_ex (\<lambda>f. endswith y (f @ [CHR 0x0A])) fences \<Longrightarrow> y \<noteq> [] \<and> last y = CHR 0x0A"
  using endswith_last [of y] by (auto simp: fences_def)

lemma sub_leading_fence_id:
  assumes "y = [] \<or> hd y \<notin> {CHR 0x60, CHR 0x27}" "lower (take 3 (dropWhile isspace y)) \<noteq> ''sql''"
  shows "sub_leading_fence y = y"
proof -
  from assms(1) have "\<not> list_ex (startswith y) fences" using startswith_fence_hd by blast
  with assms(2) show ?thesis by (simp add: sub_leading_fence_def)
qed

lemma sub_trailing_fence_id:
  assumes "y = [] \<or> last y \<notin> {CHR 0x60, CHR 0x27, CHR 0x0A}"
  shows "sub_trailing_fence y = y"
proof -
  from assms have "\<not> list_ex (endswith y) fences" "\<not> list_ex (\<lambda>f. endswith y (f @ [CHR 0x0A])) fences"
    using endswith_fence_last [of y] by auto
  then show ?thesis by (simp add: sub_trailing_fence_def)
qed

lemma stripped_query_id:
  assumes "y = [] \<or> (hd y \<notin> set strip_set \<and> last y \<notin> set strip_set)"
    and "lower (take 3 (dropWhile isspace y)) \<noteq> ''sql''"
  shows "stripped_query y = y"
proof -
  from assms(1) have 1: "y = [] \<or> hd y \<notin> {CHR 0x60, CHR 0x27}"
    and 2: "y = [] \<or> last y \<notin> {CHR 0x60, CHR 0x27, CHR 0x0A}"
    by (auto simp: strip_set_def)
  have "strip_by (\<lambda>c. c \<in> set strip_set) y = y" using assms(1) by (intro strip_by_id) simp
  then show ?thesis
    by (simp add: stripped_query_def strip_chars_def sub_leading_fence_id [OF 1 assms(2)]
        sub_trailing_fence_id [OF 2])
qed

lemma clean_fixed_line:
  assumes "y \<noteq> []" "list_all (\<lambda>c. \<not> is_linebreak c) y" "\<not> isspace (hd y)" "\<not> isspace (last y)"
    and "hd y \<notin> {CHR 0x60, CHR 0x27, CHR 0x22}" "last y \<notin> {CHR 0x60, CHR 0x27, CHR 0x22}"
    and "lower (take 3 y) \<noteq> ''sql''"
  shows "clean_sql_query y = y"
proof -
  from assms(1,3) have d: "dropWhile isspace y = y" by (cases y) auto
  have "hd y \<notin> set strip_set \<and> last y \<notin> set strip_set"
    using assms(3-6) by (auto simp: strip_set_def isspace_def)
  then have s: "stripped_query y = y" using assms(7) d by (intro stripped_query_id) simp_all
  have l: "query_lines y = [y]" using assms(1-4) by (rule single_line_lines)
  show ?thesis by (simp add: clean_sql_query_def s l)
qed

lemma clean_fixed_blank:
  assumes "list_all isspace y" "y = [] \<or> (hd y \<notin> set strip_set \<and> last y \<notin> set strip_set)"
  shows "clean_sql_query y = y"
proof -
  from assms(1) have d: "dropWhile isspace y = []" by (simp add: list_all_iff)
  have "lower (take 3 (dropWhile isspace y)) \<noteq> ''sql''" unfolding d by (simp add: lower_def)
  with assms(2) have s: "stripped_query y = y" by (rule stripped_query_id)
  have l: "query_lines y = []" using assms(1) by (rule all_space_no_lines)
  show ?thesis by (simp add: clean_sql_query_def s l)
qed

lemma length_sub_leading_fence:
  "sub_leading_fence s = s \<or> length (sub_leading_fence s) < length s"
proof (cases "lower (take 3 (dropWhile isspace (if list_ex (startswith s) fences then drop 3 s else s))) = ''sql''")
  case False
  then show ?thesis by (simp add: sub_leading_fence_def)
next
  case True
  let ?a = "if list_ex (startswith s) fences then drop 3 s else s"
  let ?b = "dropWhile isspace ?a"
  from True have "length (lower (take 3 ?b)) = 3" by simp
  then have b: "3 \<le> length ?b" by (simp add: lower_def)
  have "length (dropWhile isspace (drop 3 ?b)) \<le> length (drop 3 ?b)" by (rule length_dropWhile_le)
  also have "\<dots> < length ?b" using b by simp
  also have "\<dots> \<le> length ?a" by (rule length_dropWhile_le)
  also have "\<dots> \<le> length s" by simp
  finally have "length (dropWhile isspace (drop 3 ?b)) < length s" .
  with True show ?thesis by (simp add: sub_leading_fence_def Let_def)
qed

lemma length_sub_trailing_fence:
  "sub_trailing_fence s = s \<or> length (sub_trailing_fence s) < length s"
proof -
  have "length s \<ge> 3" if "list_ex (endswith s) fences"
    using that by (auto simp: fences_def endswith_def)
  moreover have "length s \<ge> 4" if "list_ex (\<lambda>f. endswith s (f @ [CHR 0x0A])) fences"
    using that by (auto simp: fences_def endswith_def)
  ultimately show ?thesis by (auto simp: sub_trailing_fence_def)
qed

lemma length_clean_le: "length (clean_sql_query z) \<le> length (stripped_query z)"
proof (cases "query_lines (stripped_query z) = []")
  case True
  then show ?thesis by (simp add: clean_sql_query_def)
next
  case False
  from clean_in_lines [OF False] obtain r where r: "r \<in> set (splitlines (stripped_query z))"
    and c: "clean_sql_query z = strip r" by (auto simp: query_lines_def)
  have "length (strip r) \<le> length r" unfolding strip_def by (rule length_strip_by)
  also have "\<dots> \<le> length (stripped_query z)" using r by (rule splitlines_length)
  finally show ?thesis by (simp add: c)
qed

lemma clean_fixed_edges:
  assumes "clean_sql_query y = y"
  shows "y = [] \<or> (hd y \<notin> set strip_set \<and> last y \<notin> set strip_set)" "lower (take 3 y) \<noteq> ''sql''"
    "sub_leading_fence y = y"
proof -
  let ?s1 = "sub_leading_fence y"
  let ?s2 = "sub_trailing_fence ?s1"
  let ?p = "\<lambda>c. c \<in> set strip_set"
  have q: "stripped_query y = strip_by ?p ?s2" by (simp add: stripped_query_def strip_chars_def)
  have "length y \<le> length (stripped_query y)" using length_clean_le [of y] assms by simp
  moreover have "length (strip_by ?p ?s2) \<le> length ?s2" by (rule length_strip_by)
  moreover have a2: "?s2 = ?s1 \<or> length ?s2 < length ?s1" by (rule length_sub_trailing_fence)
  moreover have a1: "?s1 = y \<or> length ?s1 < length y" by (rule length_sub_leading_fence)
  ultimately have e1: "?s1 = y" and e2: "?s2 = ?s1" and e3: "length (strip_by ?p ?s2) = length ?s2"
    unfolding q by auto
  from strip_by_same_length [OF e3] e1 e2 have fx: "strip_by ?p y = y" by simp
  show "?s1 = y" by (rule e1)
  show "y = [] \<or> (hd y \<notin> set strip_set \<and> last y \<notin> set strip_set)"
    using strip_by_edges [of ?p y] unfolding fx by blast
  show "lower (take 3 y) \<noteq> ''sql''"
  proof
    assume l: "lower (take 3 y) = ''sql''"
    then have "length (lower (take 3 y)) = 3" by simp
    then have "3 \<le> length y" by (simp add: lower_def)
    then obtain a b c rest where y: "y = a # b # c # rest"
      by (cases y; cases "tl y"; cases "tl (tl y)") auto
    with l have "lower [a, b, c] = ''sql''" by simp
    from sub_leading_sql [of "[]", OF _ this] have "?s1 = dropWhile isspace rest" by (simp add: y)
    then have "length ?s1 \<le> length rest" by (simp add: length_dropWhile_le)
    with e1 y show False by simp
  qed
qed

lemma tag_unmatched:
  assumes "sub_leading_fence y = y"
  shows "lower (take 3 y) \<noteq> ''sql''"
proof
  assume l: "lower (take 3 y) = ''sql''"
  then have "length (lower (take 3 y)) = 3" by simp
  then have "3 \<le> length y" by (simp add: lower_def)
  then obtain a b c rest where y: "y = a # b # c # rest"
    by (cases y; cases "tl y"; cases "tl (tl y)") auto
  with l have "lower [a, b, c] = ''sql''" by simp
  from sub_leading_sql [of "[]", OF _ this] have "sub_leading_fence y = dropWhile isspace rest"
    by (simp add: y)
  then have "length (sub_leading_fence y) \<le> length rest" by (simp add: length_dropWhile_le)
  with assms y show False by simp
qed

text \<open>
  C1 (as amended). Cleaning a second time changes nothing exactly when the cleaned text
  neither starts nor ends with a backtick, a single quote or a double quote, and the
  first substitution finds in it no tag to remove (it does not start with the letters
  of the tag sql). A cleaned text that does is changed by the second pass, which
  strips the quote or removes the tag.
\<close>

theorem clean_twice_iff:
  "clean_sql_query (clean_sql_query x) = clean_sql_query x \<longleftrightarrow>
     (clean_sql_query x = [] \<or>
        (hd (clean_sql_query x) \<notin> {CHR 0x60, CHR 0x27, CHR 0x22}
         \<and> last (clean_sql_query x) \<notin> {CHR 0x60, CHR 0x27, CHR 0x22}))
     \<and> sub_leading_fence (clean_sql_query x) = clean_sql_query x"
proof
  assume "clean_sql_query (clean_sql_query x) = clean_sql_query x"
  from clean_fixed_edges(1,3) [OF this]
  show "(clean_sql_query x = [] \<or>
        (hd (clean_sql_query x) \<notin> {CHR 0x60, CHR 0x27, CHR 0x22}
         \<and> last (clean_sql_query x) \<notin> {CHR 0x60, CHR 0x27, CHR 0x22}))
     \<and> sub_leading_fence (clean_sql_query x) = clean_sql_query x"
    by (auto simp: strip_set_def)
next
  let ?y = "clean_sql_query x"
  let ?s = "stripped_query x"
  assume h: "(?y = [] \<or> (hd ?y \<notin> {CHR 0x60, CHR 0x27, CHR 0x22}
         \<and> last ?y \<notin> {CHR 0x60, CHR 0x27, CHR 0x22}))
     \<and> sub_leading_fence ?y = ?y"
  then have t: "lower (take 3 ?y) \<noteq> ''sql''" using tag_unmatched by blast
  show "clean_sql_query ?y = ?y"
  proof (cases "query_lines ?s = []")
    case True
    then have y: "?y = ?s" by (simp add: clean_sql_query_def)
    from True have sp: "list_all isspace ?s" by (rule no_lines_all_space)
    have "?s = strip_by (\<lambda>c. c \<in> set strip_set) (sub_trailing_fence (sub_leading_fence x))"
      by (simp add: stripped_query_def strip_chars_def)
    with strip_by_edges [of "\<lambda>c. c \<in> set strip_set" "sub_trailing_fence (sub_leading_fence x)"]
    have "?s = [] \<or> (hd ?s \<notin> set strip_set \<and> last ?s \<notin> set strip_set)" by auto
    with sp show ?thesis unfolding y by (rule clean_fixed_blank)
  next
    case False
    from clean_in_lines [OF False] have m: "?y \<in> set (query_lines ?s)" .
    from query_lines_shape(1) [OF m] h
    have e: "hd ?y \<notin> {CHR 0x60, CHR 0x27, CHR 0x22}" "last ?y \<notin> {CHR 0x60, CHR 0x27, CHR 0x22}"
      by auto
    from query_lines_shape [OF m] e t show ?thesis by (rule clean_fixed_line)
  qed
qed

theorem clean_twice_iff_witness:
  "clean_sql_query ''```sql\<newline>SELECT name FROM t;\<newline>```'' = ''SELECT name FROM t;''
   \<and> sub_leading_fence ''SELECT name FROM t;'' = ''SELECT name FROM t;''
   \<and> clean_sql_query (clean_sql_query ''```sql\<newline>SELECT name FROM t;\<newline>```'')
      = clean_sql_query ''```sql\<newline>SELECT name FROM t;\<newline>```''"
proof -
  let ?x = "''```sql\<newline>SELECT name FROM t;\<newline>```''"
  have c: "clean_sql_query ?x = ''SELECT name FROM t;''" by code_simp
  have "(''SELECT name FROM t;'' = [] \<or>
        (hd ''SELECT name FROM t;'' \<notin> {CHR 0x60, CHR 0x27, CHR 0x22}
         \<and> last ''SELECT name FROM t;'' \<notin> {CHR 0x60, CHR 0x27, CHR 0x22}))
     \<and> sub_leading_fence ''SELECT name FROM t;'' = ''SELECT name FROM t;''" by code_simp
  with clean_twice_iff [of ?x] c show ?thesis by simp
qed

text \<open>
  C1 as stated fails: the statement line below ends in a quote, which the first pass
  keeps because another line follows it, and which the second pass strips.
\<close>

theorem clean_twice_differs:
  "clean_sql_query ''SELECT name FROM t WHERE city = 'Paris'\<newline>LIMIT 5''
     = ''SELECT name FROM t WHERE city = 'Paris'' @ [CHR 0x27]
   \<and> clean_sql_query (clean_sql_query ''SELECT name FROM t WHERE city = 'Paris'\<newline>LIMIT 5'')
     = ''SELECT name FROM t WHERE city = 'Paris''
   \<and> clean_sql_query (clean_sql_query ''SELECT name FROM t WHERE city = 'Paris'\<newline>LIMIT 5'')
     \<noteq> clean_sql_query ''SELECT name FROM t WHERE city = 'Paris'\<newline>LIMIT 5''"
  by code_simp

end
